theory Spec2Isabelle
  imports Main
begin

section \<open>Numbers, ranges and observations\<close>

text \<open>
  The cache of \<^verbatim>\<open>src/cache/Cache.ts\<close> works on JavaScript numbers. Timestamps of
  observations are epoch milliseconds (finite, whole), modelled as \<open>int\<close>; so is the
  value of \<^verbatim>\<open>Date.now()\<close>. Range endpoints are numbers too, and \<^verbatim>\<open>removeOutsideRange\<close>
  builds ranges with \<^verbatim>\<open>Number.NEGATIVE_INFINITY\<close> and \<^verbatim>\<open>Number.POSITIVE_INFINITY\<close>, so
  an endpoint is an integer or one of the two infinities. NaN and fractions are left
  out.
\<close>

datatype number = NegInf | Fin int | PosInf

instantiation number :: linorder
begin

fun less_eq_number :: "number \<Rightarrow> number \<Rightarrow> bool" where
  "less_eq_number NegInf y = True"
| "less_eq_number (Fin a) NegInf = False"
| "less_eq_number (Fin a) (Fin b) = (a \<le> b)"
| "less_eq_number (Fin a) PosInf = True"
| "less_eq_number PosInf NegInf = False"
| "less_eq_number PosInf (Fin b) = False"
| "less_eq_number PosInf PosInf = True"

definition less_number :: "number \<Rightarrow> number \<Rightarrow> bool" where
  "less_number x y = (x \<le> y \<and> \<not> y \<le> x)"

instance
proof
  fix x y z :: number
  show "(x < y) = (x \<le> y \<and> \<not> y \<le> x)"
    by (simp add: less_number_def)
  show "x \<le> x"
    by (cases x) simp_all
  show "x \<le> y \<Longrightarrow> y \<le> z \<Longrightarrow> x \<le> z"
    by (cases x; cases y; cases z) simp_all
  show "x \<le> y \<Longrightarrow> y \<le> x \<Longrightarrow> x = y"
    by (cases x; cases y) simp_all
  show "x \<le> y \<or> y \<le> x"
    by (cases x; cases y) auto
qed

end

text \<open>\<open>add_int x k\<close> is the JavaScript \<^verbatim>\<open>x + k\<close> for a finite \<open>k\<close>: an infinity stays.\<close>

fun add_int :: "number \<Rightarrow> int \<Rightarrow> number" where
  "add_int NegInf k = NegInf"
| "add_int (Fin a) k = Fin (a + k)"
| "add_int PosInf k = PosInf"

type_synonym TimestampRange = "number \<times> number"

record EntityState =
  timestamp :: int
  state :: string
  fake_boundary_datapoint :: bool

record HistoryInRange =
  range_fetched :: TimestampRange
  history_fetched :: "EntityState list"

datatype error = Error string

section \<open>Series descriptors and their keys\<close>

text \<open>
  Modelled from the spec: the type \<^verbatim>\<open>EntityConfig\<close> and its guards
  \<^verbatim>\<open>isEntityIdAttrConfig\<close>, \<^verbatim>\<open>isEntityIdStatisticsConfig\<close> and
  \<^verbatim>\<open>isEntityIdStateConfig\<close> are declared in \<^verbatim>\<open>../types\<close>, which is not among the
  sources. The spec gives three recognised shapes (entity with attribute, entity with
  statistic and period, entity alone) and descriptors matching none of them, which are
  a configuration error. The last constructor carries the JSON text of such a
  descriptor.
\<close>

datatype EntityConfig =
    EntityIdAttrConfig string string
  | EntityIdStatisticsConfig string string string
  | EntityIdStateConfig string
  | MalformedConfig string

fun isEntityIdAttrConfig :: "EntityConfig \<Rightarrow> bool" where
  "isEntityIdAttrConfig (EntityIdAttrConfig e a) = True"
| "isEntityIdAttrConfig _ = False"

fun isEntityIdStatisticsConfig :: "EntityConfig \<Rightarrow> bool" where
  "isEntityIdStatisticsConfig (EntityIdStatisticsConfig e s p) = True"
| "isEntityIdStatisticsConfig _ = False"

fun isEntityIdStateConfig :: "EntityConfig \<Rightarrow> bool" where
  "isEntityIdStateConfig (EntityIdStateConfig e) = True"
| "isEntityIdStateConfig _ = False"

text \<open>\<^verbatim>\<open>getEntityKey\<close>: the three template strings in the order of the source, and the throw.\<close>

fun getEntityKey :: "EntityConfig \<Rightarrow> error + string" where
  "getEntityKey (EntityIdAttrConfig e a) = Inr (e @ ''::'' @ a)"
| "getEntityKey (EntityIdStatisticsConfig e s p) =
     Inr (e @ ''::statistics::'' @ s @ ''::'' @ p)"
| "getEntityKey (EntityIdStateConfig e) = Inr e"
| "getEntityKey (MalformedConfig json) = Inl (Error (''Entity malformed:'' @ json))"

section \<open>Range arithmetic\<close>

text \<open>
  Modelled from the spec: \<^verbatim>\<open>compactRanges\<close> and \<^verbatim>\<open>subtractRanges\<close> are imported from
  \<^verbatim>\<open>./date-ranges\<close>, which is not among the sources. Section 4.1 of the spec gives
  compaction as: sort by start; merge any pair where the next range's start is at most
  the current range's end into one range spanning the least start and the greatest end.
\<close>

fun merge_sorted :: "TimestampRange list \<Rightarrow> TimestampRange list" where
  "merge_sorted [] = []"
| "merge_sorted [r] = [r]"
| "merge_sorted (cur # nxt # rs) =
     (if fst nxt \<le> snd cur
      then merge_sorted ((min (fst cur) (fst nxt), max (snd cur) (snd nxt)) # rs)
      else cur # merge_sorted (nxt # rs))"

definition compactRanges :: "TimestampRange list \<Rightarrow> TimestampRange list" where
  "compactRanges rs = merge_sorted (sort_key fst rs)"

text \<open>
  Modelled from the spec: subtraction, section 4.1 and the laws of section 8. The spec
  treats subtraction as a difference of interval sets, wants the output sorted and
  has \<^verbatim>\<open>subtract(T, [])\<close> equal \<^verbatim>\<open>compact(T)\<close>, so the targets are taken compacted.
  Then, for each target range, walk the covered ranges that intersect it in order, emit
  the gap before each intersecting covered range when there is one, advance the cursor
  past the covered range's end, and emit a final gap from the cursor to the target's end
  if it is not empty. Ranges are inclusive and gaps start one unit after a covered range
  ends (scenario B of section 8). Two ranges intersect when they share a number, so an
  empty range (start after end) intersects nothing and an empty target yields nothing.
  The walk of a target ends at a covered range that reaches the target's end: nothing
  of the target is left after it.
\<close>

definition intersects :: "TimestampRange \<Rightarrow> TimestampRange \<Rightarrow> bool" where
  "intersects t c = (max (fst t) (fst c) \<le> min (snd t) (snd c))"

fun gaps_from :: "number \<Rightarrow> TimestampRange \<Rightarrow> TimestampRange list \<Rightarrow> TimestampRange list" where
  "gaps_from cur t [] = (if cur \<le> snd t then [(cur, snd t)] else [])"
| "gaps_from cur t (c # cs) =
     (if intersects t c
      then (if cur < fst c then [(cur, add_int (fst c) (- 1))] else [])
           @ (if snd c < snd t then gaps_from (add_int (snd c) 1) t cs else [])
      else gaps_from cur t cs)"

definition subtractRanges :: "TimestampRange list \<Rightarrow> TimestampRange list \<Rightarrow> TimestampRange list" where
  "subtractRanges targets subtracted =
     concat (map (\<lambda>t. gaps_from (fst t) t subtracted) (compactRanges targets))"

section \<open>The cache\<close>

record Cache =
  ranges :: "string \<rightharpoonup> TimestampRange list"
  histories :: "string \<rightharpoonup> EntityState list"

definition emptyCache :: Cache where
  "emptyCache = \<lparr>ranges = Map.empty, histories = Map.empty\<rparr>"

text \<open>
  \<^verbatim>\<open>ranges\<close> and \<^verbatim>\<open>histories\<close> are plain objects (\<^verbatim>\<open>{}\<close>). The maps above hold their own
  properties. Reading \<^verbatim>\<open>obj[key]\<close> for a key that is no own property goes to
  \<^verbatim>\<open>Object.prototype\<close>: for the names below it finds the inherited member (a function,
  or the prototype object itself for \<^verbatim>\<open>__proto__\<close>), which is neither null nor undefined,
  is truthy, and is no array; for any other name it finds \<^verbatim>\<open>undefined\<close>.
\<close>

definition object_prototype_names :: "string list" where
  "object_prototype_names =
     [''constructor'', ''__defineGetter__'', ''__defineSetter__'', ''hasOwnProperty'',
      ''__lookupGetter__'', ''__lookupSetter__'', ''isPrototypeOf'',
      ''propertyIsEnumerable'', ''toString'', ''valueOf'', ''__proto__'',
      ''toLocaleString'']"

definition prototype_member :: "string \<Rightarrow> bool" where
  "prototype_member key = (key \<in> set object_prototype_names)"

datatype 'a property = Own 'a | Inherited | Absent

definition read_property :: "(string \<rightharpoonup> 'a) \<Rightarrow> string \<Rightarrow> 'a property" where
  "read_property obj key =
     (case obj key of
        Some v \<Rightarrow> Own v
      | None \<Rightarrow> if prototype_member key then Inherited else Absent)"

text \<open>\<^verbatim>\<open>mapValues\<close>: the function applied to every value of the object, with its key.\<close>

definition mapValues :: "('k \<rightharpoonup> 'a) \<Rightarrow> ('a \<Rightarrow> 'k \<Rightarrow> 'b) \<Rightarrow> ('k \<rightharpoonup> 'b)" where
  "mapValues obj fn = (\<lambda>k. case obj k of None \<Rightarrow> None | Some v \<Rightarrow> Some (fn v k))"

text \<open>
  \<^verbatim>\<open>Array.prototype.filter\<close> with a callback that reads the element and its index.
\<close>

definition filter_idx :: "('a \<Rightarrow> nat \<Rightarrow> bool) \<Rightarrow> 'a list \<Rightarrow> 'a list" where
  "filter_idx p xs = map fst (filter (\<lambda>(x, i). p x i) (zip xs [0..<length xs]))"

text \<open>
  \<^verbatim>\<open>Cache.add\<close>. A call that throws returns the error with the cache as the throw left
  it. \<^verbatim>\<open>this.histories[entityKey] ??= []\<close> assigns only when the value read is null or
  undefined, so for a key that names a member of \<^verbatim>\<open>Object.prototype\<close> and has no own
  entry \<^verbatim>\<open>h\<close> is that member and \<^verbatim>\<open>h.push\<close> throws a TypeError before anything is
  stored; the same holds for \<^verbatim>\<open>this.ranges[entityKey].push\<close>, which runs after the
  history has been stored. The sort of JavaScript is stable and its comparator is the
  difference of the timestamps, so it is \<open>sort_key timestamp\<close>. In the second filter the
  callback reads the array being filtered (the assignment happens after the filter
  returns); at index 0, \<^verbatim>\<open>h[-1]\<close> is undefined and the comparison holds.
\<close>

definition Cache_add :: "EntityConfig \<Rightarrow> EntityState list \<Rightarrow> TimestampRange \<Rightarrow> Cache
    \<Rightarrow> (error \<times> Cache) + Cache" where
  "Cache_add entity states rng c =
     (case getEntityKey entity of
        Inl e \<Rightarrow> Inl (e, c)
      | Inr entityKey \<Rightarrow>
          (if read_property (histories c) entityKey = Inherited
           then Inl (Error ''TypeError'', c)
           else
             (let h0 = (case read_property (histories c) entityKey of Own h \<Rightarrow> h | _ \<Rightarrow> []);
                  h1 = h0 @ states;
                  h2 = sort_key timestamp h1;
                  h3 = filter_idx (\<lambda>x i. i = 0 \<or> \<not> fake_boundary_datapoint x) h2;
                  h4 = filter_idx
                         (\<lambda>_ i. i = 0 \<or> timestamp (h3 ! (i - 1)) \<noteq> timestamp (h3 ! i)) h3;
                  c1 = c\<lparr>histories := (histories c)(entityKey \<mapsto> h4)\<rparr>
              in if read_property (ranges c1) entityKey = Inherited
                 then Inl (Error ''TypeError'', c1)
                 else
                   (let rs0 = (case read_property (ranges c1) entityKey of
                                 Own rs \<Rightarrow> rs | _ \<Rightarrow> []);
                        rs1 = rs0 @ [rng]
                    in Inr (c1\<lparr>ranges := (ranges c1)(entityKey \<mapsto> compactRanges rs1)\<rparr>)))))"

definition Cache_clearCache :: "Cache \<Rightarrow> Cache" where
  "Cache_clearCache c = c\<lparr>ranges := Map.empty, histories := Map.empty\<rparr>"

text \<open>
  \<^verbatim>\<open>getHistory\<close> returns \<^verbatim>\<open>this.histories[key] || []\<close>: the stored array (an array is
  truthy, also when empty), the empty array when the read finds \<^verbatim>\<open>undefined\<close>, and
  the inherited member itself when the key names one, which is no observation sequence.
\<close>

datatype history_value = Observations "EntityState list" | PrototypeMember string

definition Cache_getHistory :: "EntityConfig \<Rightarrow> Cache \<Rightarrow> error + history_value" where
  "Cache_getHistory entity c =
     (case getEntityKey entity of
        Inl e \<Rightarrow> Inl e
      | Inr key \<Rightarrow>
          Inr (case read_property (histories c) key of
                 Own h \<Rightarrow> Observations h
               | Inherited \<Rightarrow> PrototypeMember key
               | Absent \<Rightarrow> Observations []))"

text \<open>
  The filter callback of \<^verbatim>\<open>removeOutsideRange\<close> assigns the variables \<^verbatim>\<open>first\<close> and
  \<^verbatim>\<open>last\<close> while it runs. \<open>trim_scan\<close> is that filter: it returns the kept elements
  and the final values of the two variables.
\<close>

fun trim_scan :: "TimestampRange \<Rightarrow> EntityState list \<Rightarrow> EntityState option \<Rightarrow> EntityState option
    \<Rightarrow> EntityState list \<times> EntityState option \<times> EntityState option" where
  "trim_scan rng [] first' last' = ([], first', last')"
| "trim_scan rng (datum # rest) first' last' =
     (if Fin (timestamp datum) \<le> fst rng then trim_scan rng rest (Some datum) last'
      else if last' = None \<and> snd rng \<le> Fin (timestamp datum)
        then trim_scan rng rest first' (Some datum)
      else (case trim_scan rng rest first' last' of
              (kept, f, l) \<Rightarrow> (datum # kept, f, l)))"

definition trim_history :: "TimestampRange \<Rightarrow> EntityState list \<Rightarrow> EntityState list" where
  "trim_history rng history =
     (case trim_scan rng history None None of
        (newHistory, first', last') \<Rightarrow>
          (case first' of None \<Rightarrow> [] | Some f \<Rightarrow> [f]) @ newHistory
            @ (case last' of None \<Rightarrow> [] | Some l \<Rightarrow> [l]))"

definition Cache_removeOutsideRange :: "TimestampRange \<Rightarrow> Cache \<Rightarrow> Cache" where
  "Cache_removeOutsideRange rng c =
     c\<lparr>ranges := mapValues (ranges c) (\<lambda>rs _.
          subtractRanges rs
            [(NegInf, add_int (fst rng) (- 1)), (add_int (snd rng) 1, PosInf)]),
       histories := mapValues (histories c) (\<lambda>history _. trim_history rng history)\<rparr>"

section \<open>Sequences of calls and the properties of a series\<close>

text \<open>
  The cache after a call of \<^verbatim>\<open>add\<close>, whether it returned or threw.
\<close>

type_synonym add_call = "EntityConfig \<times> EntityState list \<times> TimestampRange"

definition add_or_keep :: "add_call \<Rightarrow> Cache \<Rightarrow> Cache" where
  "add_or_keep call c =
     (case call of (entity, states, rng) \<Rightarrow>
        (case Cache_add entity states rng c of Inl (e, c') \<Rightarrow> c' | Inr c' \<Rightarrow> c'))"

definition add_calls :: "add_call list \<Rightarrow> Cache \<Rightarrow> Cache" where
  "add_calls calls c = fold add_or_keep calls c"

text \<open>
  The observation sequence of a series as the spec wants it: strictly ascending
  timestamps, no timestamp twice, a boundary flag at index 0 only.
\<close>

definition history_ok :: "EntityState list \<Rightarrow> bool" where
  "history_ok h =
     (sorted_wrt (\<lambda>a b. timestamp a < timestamp b) h \<and>
      distinct (map timestamp h) \<and>
      (\<forall>i < length h. fake_boundary_datapoint (h ! i) \<longrightarrow> i = 0))"

text \<open>The three array steps of \<^verbatim>\<open>add\<close> on their own, and the second filter as a recursion.\<close>

definition merge_history :: "EntityState list \<Rightarrow> EntityState list \<Rightarrow> EntityState list" where
  "merge_history h0 states =
     (let h2 = sort_key timestamp (h0 @ states);
          h3 = filter_idx (\<lambda>x i. i = 0 \<or> \<not> fake_boundary_datapoint x) h2
      in filter_idx (\<lambda>_ i. i = 0 \<or> timestamp (h3 ! (i - 1)) \<noteq> timestamp (h3 ! i)) h3)"

fun keep_changes :: "EntityState \<Rightarrow> EntityState list \<Rightarrow> EntityState list" where
  "keep_changes p [] = []"
| "keep_changes p (x # xs) =
     (if timestamp p \<noteq> timestamp x then [x] else []) @ keep_changes x xs"

definition obs :: "int \<Rightarrow> EntityState" where
  "obs t = \<lparr>timestamp = t, state = ''on'', fake_boundary_datapoint = False\<rparr>"

definition boundary_obs :: "int \<Rightarrow> EntityState" where
  "boundary_obs t = \<lparr>timestamp = t, state = ''on'', fake_boundary_datapoint = True\<rparr>"

section \<open>Fetching one gap\<close>

text \<open>
  The two fetch adapters (\<^verbatim>\<open>./fetch-statistics\<close> and \<^verbatim>\<open>./fetch-states\<close>) are external:
  what they answer for a descriptor and a window is a parameter of the model, and a
  rejected promise is the value \<open>Inl\<close>. \<open>now\<close> is the value of \<^verbatim>\<open>Date.now()\<close> when
  \<^verbatim>\<open>fetchSingleRange\<close> starts. The window handed to the adapter is the pair of time
  values of the two \<^verbatim>\<open>Date\<close> objects.
\<close>

record HomeAssistant =
  fetchStatistics :: "EntityConfig \<Rightarrow> TimestampRange \<Rightarrow> error + EntityState list"
  fetchStates :: "EntityConfig \<Rightarrow> TimestampRange \<Rightarrow> bool \<Rightarrow> bool \<Rightarrow> error + EntityState list"

definition fetchSingleRange ::
    "HomeAssistant \<Rightarrow> int \<Rightarrow> EntityConfig \<Rightarrow> TimestampRange \<Rightarrow> bool \<Rightarrow> bool
      \<Rightarrow> error + HistoryInRange" where
  "fetchSingleRange hass now entity rng significant_changes_only minimal_response =
     (let startT = fst rng;
          start = add_int startT (- 1);
          endT = min (snd rng) (Fin now);
          end' = endT;
          fetched =
            (if isEntityIdStatisticsConfig entity
             then fetchStatistics hass entity (start, end')
             else fetchStates hass entity (start, end')
                    significant_changes_only minimal_response)
      in case fetched of
           Inl e \<Rightarrow> Inl e
         | Inr history \<Rightarrow>
             Inr \<lparr>range_fetched = (startT, endT),
                  history_fetched =
                    (case history of
                       [] \<Rightarrow> []
                     | x # xs \<Rightarrow> x\<lparr>fake_boundary_datapoint := True\<rparr> # xs)\<rparr>)"

text \<open>An adapter for the examples: it answers a window with one observation at its start.\<close>

definition echo_hass :: HomeAssistant where
  "echo_hass =
     \<lparr>fetchStatistics = (\<lambda>entity w. Inl (Error ''no statistics'')),
      fetchStates = (\<lambda>entity w s m.
        case fst w of Fin a \<Rightarrow> Inr [obs a, obs (a + 1)] | _ \<Rightarrow> Inr [])\<rparr>"

section \<open>What a list of ranges covers\<close>

text \<open>
  A range is inclusive at both ends. \<open>pts r\<close> are the integers it holds, \<open>pts_list rs\<close>
  the integers a list of ranges holds. A list is \<open>separated\<close> when it is sorted and
  disjoint: each range ends before every later one starts.
\<close>

definition range_ok :: "TimestampRange \<Rightarrow> bool" where
  "range_ok r = (fst r \<le> snd r)"



definition pts :: "TimestampRange \<Rightarrow> int set" where
  "pts r = {i. fst r \<le> Fin i \<and> Fin i \<le> snd r}"

definition pts_list :: "TimestampRange list \<Rightarrow> int set" where
  "pts_list rs = (\<Union>r \<in> set rs. pts r)"

definition separated :: "TimestampRange list \<Rightarrow> bool" where
  "separated rs = sorted_wrt (\<lambda>a b. snd a < fst b) rs"


section \<open>update: the promise chain as a state machine\<close>

text \<open>
  \<^verbatim>\<open>update\<close> is asynchronous. Its body runs when the promise \<^verbatim>\<open>busy\<close> of the call
  before it has settled (\<^verbatim>\<open>this.busy.catch(() => {}).then(...)\<close>), and it suspends at
  one place only: the \<^verbatim>\<open>await\<close> of the adapter inside \<^verbatim>\<open>fetchSingleRange\<close>. Everything
  between two suspensions runs without interleaving, so the cache with its pending
  operations is a state machine whose events are the calls of the host and the
  settlements of the adapter's promises.

  The callback of \<^verbatim>\<open>entities.flatMap\<close> is an async function: for each entity it runs up
  to its first \<^verbatim>\<open>await\<close> (key derivation, \<^verbatim>\<open>??=\<close>, gap computation, the call of
  \<^verbatim>\<open>fetchSingleRange\<close> for the first gap, which reads \<^verbatim>\<open>Date.now()\<close>) and returns a
  promise. \<open>Awaiting entity aRange issued rest\<close> is that callback suspended in the fetch
  of \<open>aRange\<close>, started at time \<open>issued\<close>, with \<open>rest\<close> the gaps still to come.
  A callback that threw is \<open>Rejected\<close>, one that ran to its end is \<open>Fulfilled\<close>.
\<close>

record UpdateCall =
  u_range :: TimestampRange
  u_removeOutsideRange :: bool
  u_entities :: "EntityConfig list"
  u_significant_changes_only :: bool
  u_minimal_response :: bool

datatype EntityTask =
    Awaiting EntityConfig TimestampRange int "TimestampRange list"
  | Fulfilled
  | Rejected error

datatype promise_state = Pending | Resolved | RejectedWith error

text \<open>
  One call of \<^verbatim>\<open>update\<close>: its arguments, whether its body has started, the promises
  of its entity callbacks, and the state of the promise it returned (the new \<^verbatim>\<open>busy\<close>).
\<close>

record Operation =
  op_call :: UpdateCall
  op_started :: bool
  op_tasks :: "EntityTask list"
  op_settled :: promise_state

type_synonym fetch_call = "EntityConfig \<times> TimestampRange \<times> int"

text \<open>
  The cache object, the calls of \<^verbatim>\<open>update\<close> so far in call order, and the calls of
  \<^verbatim>\<open>fetchSingleRange\<close> so far (entity, gap, \<^verbatim>\<open>Date.now()\<close>).
\<close>

record World =
  w_cache :: Cache
  w_operations :: "Operation list"
  w_fetches :: "fetch_call list"

definition newWorld :: World where
  "newWorld = \<lparr>w_cache = emptyCache, w_operations = [], w_fetches = []\<rparr>"

text \<open>
  \<^verbatim>\<open>Promise.all\<close>: rejected as soon as one of the promises is rejected, fulfilled when
  all of them are, pending otherwise.
\<close>

fun first_rejection :: "EntityTask list \<Rightarrow> error option" where
  "first_rejection [] = None"
| "first_rejection (Rejected e # ts) = Some e"
| "first_rejection (t # ts) = first_rejection ts"

definition promise_all :: "EntityTask list \<Rightarrow> promise_state" where
  "promise_all ts =
     (case first_rejection ts of
        Some e \<Rightarrow> RejectedWith e
      | None \<Rightarrow> if list_all (\<lambda>t. t = Fulfilled) ts then Resolved else Pending)"

fun issued_by :: "EntityTask \<Rightarrow> fetch_call list" where
  "issued_by (Awaiting entity aRange issued rest) = [(entity, aRange, issued)]"
| "issued_by t = []"

text \<open>
  The entity callbacks up to their first suspension, in the order of the entities.
  \<^verbatim>\<open>this.ranges[entityKey] ??= []\<close> leaves an inherited member in place (it is not
  null), and \<^verbatim>\<open>subtractRanges\<close> is then handed that member instead of a list of
  ranges. Modelled from the spec: the spec's subtraction walks the covered ranges, which
  cannot be done on a value that is no list; the callback is taken to throw a TypeError
  there.
\<close>

fun start_entities :: "int \<Rightarrow> TimestampRange \<Rightarrow> EntityConfig list \<Rightarrow> Cache \<Rightarrow> EntityTask list \<times> Cache" where
  "start_entities now rng [] c = ([], c)"
| "start_entities now rng (entity # es) c =
     (case getEntityKey entity of
        Inl e \<Rightarrow>
          (case start_entities now rng es c of (ts, c') \<Rightarrow> (Rejected e # ts, c'))
      | Inr entityKey \<Rightarrow>
          (if read_property (ranges c) entityKey = Inherited
           then (case start_entities now rng es c of
                   (ts, c') \<Rightarrow> (Rejected (Error ''TypeError'') # ts, c'))
           else
             (let rs = (case read_property (ranges c) entityKey of Own rs \<Rightarrow> rs | _ \<Rightarrow> []);
                  c1 = c\<lparr>ranges := (ranges c)(entityKey \<mapsto> rs)\<rparr>;
                  rangesToFetch = subtractRanges [rng] rs;
                  t = (case rangesToFetch of
                         [] \<Rightarrow> Fulfilled
                       | aRange # rest \<Rightarrow> Awaiting entity aRange now rest)
              in case start_entities now rng es c1 of (ts, c') \<Rightarrow> (t # ts, c'))))"

text \<open>The body of \<^verbatim>\<open>update\<close> up to \<^verbatim>\<open>await Promise.all(promises)\<close>.\<close>

definition start_operation :: "int \<Rightarrow> Operation \<Rightarrow> Cache \<Rightarrow> Operation \<times> Cache" where
  "start_operation now op c =
     (let c0 = (if u_removeOutsideRange (op_call op)
                then Cache_removeOutsideRange (u_range (op_call op)) c else c)
      in case start_entities now (u_range (op_call op)) (u_entities (op_call op)) c0 of
           (ts, c1) \<Rightarrow>
             (op\<lparr>op_started := True, op_tasks := ts, op_settled := promise_all ts\<rparr>, c1))"

text \<open>
  The adapter's promise of a suspended callback settles with \<open>outcome\<close> at time \<open>now\<close>:
  \<^verbatim>\<open>fetchSingleRange\<close> resumes with that answer, the callback adds the result and goes on
  to its next gap, whose fetch starts at \<open>now\<close>. A rejected fetch ends the callback: the
  \<^verbatim>\<open>for\<close> loop is left by the exception and the gaps after it are never fetched.
  \<^verbatim>\<open>fetchSingleRange\<close> never returns null, so the \<^verbatim>\<open>continue\<close> of the loop is never
  taken.
\<close>

definition answering :: "error + EntityState list \<Rightarrow> HomeAssistant" where
  "answering outcome =
     \<lparr>fetchStatistics = (\<lambda>entity w. outcome), fetchStates = (\<lambda>entity w s m. outcome)\<rparr>"

fun settle_task :: "int \<Rightarrow> UpdateCall \<Rightarrow> EntityTask \<Rightarrow> error + EntityState list \<Rightarrow> Cache
    \<Rightarrow> EntityTask \<times> Cache" where
  "settle_task now u (Awaiting entity aRange issued rest) outcome c =
     (case fetchSingleRange (answering outcome) issued entity aRange
             (u_significant_changes_only u) (u_minimal_response u) of
        Inl e \<Rightarrow> (Rejected e, c)
      | Inr fetchedHistory \<Rightarrow>
          (case Cache_add entity (history_fetched fetchedHistory)
                  (range_fetched fetchedHistory) c of
             Inl (e, c') \<Rightarrow> (Rejected e, c')
           | Inr c' \<Rightarrow>
               (case rest of
                  [] \<Rightarrow> (Fulfilled, c')
                | aRange' # rest' \<Rightarrow> (Awaiting entity aRange' now rest', c'))))"
| "settle_task now u t outcome c = (t, c)"

definition settle_in_operation :: "int \<Rightarrow> nat \<Rightarrow> error + EntityState list \<Rightarrow> Operation \<Rightarrow> Cache
    \<Rightarrow> Operation \<times> Cache \<times> fetch_call list" where
  "settle_in_operation now j outcome op c =
     (if j < length (op_tasks op)
      then (case settle_task now (op_call op) (op_tasks op ! j) outcome c of
              (t, c') \<Rightarrow>
                (let ts = (op_tasks op)[j := t]
                 in (op\<lparr>op_tasks := ts,
                         op_settled := (if op_settled op = Pending then promise_all ts
                                        else op_settled op)\<rparr>,
                     c',
                     (case op_tasks op ! j of
                        Awaiting entity aRange issued rest \<Rightarrow> issued_by t
                      | _ \<Rightarrow> []))))
      else (op, c, []))"

text \<open>
  The chain of \<^verbatim>\<open>busy\<close>: the body of a call starts once the promise of the call before
  it has settled, fulfilled or rejected (the \<^verbatim>\<open>catch\<close>). \<open>run_queue\<close> starts every call
  that can start; \<open>prev\<close> says whether the promise before the head has settled, and is
  true at the head of the list (\<^verbatim>\<open>busy\<close> starts as a resolved promise). A body starts
  within the event that makes it ready; the few microtask turns between the two are not
  events of the model.
\<close>

fun run_queue :: "int \<Rightarrow> bool \<Rightarrow> Operation list \<Rightarrow> Cache
    \<Rightarrow> Operation list \<times> Cache \<times> fetch_call list" where
  "run_queue now prev [] c = ([], c, [])"
| "run_queue now prev (op # ops) c =
     (if op_started op
      then (case run_queue now (op_settled op \<noteq> Pending) ops c of
              (ops', c', fs) \<Rightarrow> (op # ops', c', fs))
      else if prev
      then (case start_operation now op c of
              (op', c1) \<Rightarrow>
                (case run_queue now (op_settled op' \<noteq> Pending) ops c1 of
                   (ops', c', fs) \<Rightarrow>
                     (op' # ops', c', concat (map issued_by (op_tasks op')) @ fs)))
      else (op # ops, c, []))"

definition resume :: "int \<Rightarrow> World \<Rightarrow> World" where
  "resume now w =
     (case run_queue now True (w_operations w) (w_cache w) of
        (ops, c, fs) \<Rightarrow>
          w\<lparr>w_cache := c, w_operations := ops, w_fetches := w_fetches w @ fs\<rparr>)"

datatype event =
    Update int UpdateCall
  | Settle nat nat int "error + EntityState list"
  | CallAdd EntityConfig "EntityState list" TimestampRange
  | CallRemoveOutsideRange TimestampRange
  | CallClearCache

text \<open>
  \<open>Update now u\<close>: the host calls \<^verbatim>\<open>update\<close> at time \<open>now\<close>. \<open>Settle i j now outcome\<close>: the
  adapter's promise awaited by callback \<open>j\<close> of call \<open>i\<close> settles at time \<open>now\<close>; it is
  ignored when that callback awaits nothing. The other three events are the host calling
  the synchronous methods.
\<close>

fun step :: "World \<Rightarrow> event \<Rightarrow> World" where
  "step w (Update now u) =
     resume now (w\<lparr>w_operations := w_operations w @
        [\<lparr>op_call = u, op_started = False, op_tasks = [], op_settled = Pending\<rparr>]\<rparr>)"
| "step w (Settle i j now outcome) =
     (if i < length (w_operations w)
      then (case settle_in_operation now j outcome (w_operations w ! i) (w_cache w) of
              (op, c, fs) \<Rightarrow>
                resume now (w\<lparr>w_cache := c,
                               w_operations := (w_operations w)[i := op],
                               w_fetches := w_fetches w @ fs\<rparr>))
      else w)"
| "step w (CallAdd entity states rng) =
     w\<lparr>w_cache := add_or_keep (entity, states, rng) (w_cache w)\<rparr>"
| "step w (CallRemoveOutsideRange rng) =
     w\<lparr>w_cache := Cache_removeOutsideRange rng (w_cache w)\<rparr>"
| "step w CallClearCache = w\<lparr>w_cache := Cache_clearCache (w_cache w)\<rparr>"

definition run :: "World \<Rightarrow> event list \<Rightarrow> World" where
  "run w evs = foldl step w evs"

section \<open>Examples\<close>

definition sensor :: EntityConfig where
  "sensor = EntityIdStateConfig ''sensor.t''"

definition update_100_200 :: UpdateCall where
  "update_100_200 = \<lparr>u_range = (Fin 100, Fin 200), u_removeOutsideRange = False,
     u_entities = [sensor], u_significant_changes_only = True, u_minimal_response = True\<rparr>"

definition trimmed_cache :: Cache where
  "trimmed_cache = Cache_removeOutsideRange (Fin 50, Fin 150)
     (add_calls [(sensor, [obs 5, obs 60, obs 100, obs 160, obs 300], (Fin 0, Fin 300))] emptyCache)"

definition other_sensor :: EntityConfig where
  "other_sensor = EntityIdStateConfig ''sensor.u''"

definition update_both :: UpdateCall where
  "update_both = \<lparr>u_range = (Fin 100, Fin 200), u_removeOutsideRange = False,
     u_entities = [sensor, other_sensor], u_significant_changes_only = True,
     u_minimal_response = True\<rparr>"

definition update_other :: UpdateCall where
  "update_other = \<lparr>u_range = (Fin 100, Fin 200), u_removeOutsideRange = False,
     u_entities = [other_sensor], u_significant_changes_only = True,
     u_minimal_response = True\<rparr>"


section \<open>Well-timed event sequences and ordered ranges\<close>








section \<open>Coverage while one update runs\<close>








section \<open>The array steps of add\<close>

lemma filter_idx_Nil [simp]: "filter_idx p [] = []"
  by (simp add: filter_idx_def)

lemma filter_idx_Cons:
  "filter_idx p (x # xs) = (if p x 0 then [x] else []) @ filter_idx (\<lambda>y i. p y (Suc i)) xs"
proof -
  have "zip (x # xs) [0..<length (x # xs)] =
      (x, 0) # map (\<lambda>(y, i). (y, Suc i)) (zip xs [0..<length xs])"
    by (simp add: upt_conv_Cons map_Suc_upt [symmetric] zip_map2 del: upt_Suc)
  then show ?thesis
    by (simp add: filter_idx_def filter_map comp_def case_prod_unfold)
qed

lemma filter_idx_const: "filter_idx (\<lambda>x i. q x) xs = filter q xs"
  by (induction xs) (simp_all add: filter_idx_Cons)

lemma drop_boundary_Cons:
  "filter_idx (\<lambda>x i. i = 0 \<or> \<not> fake_boundary_datapoint x) (x # xs) =
     x # filter (\<lambda>y. \<not> fake_boundary_datapoint y) xs"
  by (simp add: filter_idx_Cons filter_idx_const)

lemma filter_idx_keep_changes:
  "filter_idx (\<lambda>_ i. timestamp ((p # xs) ! i) \<noteq> timestamp (xs ! i)) xs = keep_changes p xs"
  by (induction xs arbitrary: p) (simp_all add: filter_idx_Cons)

lemma dedupe_Cons:
  "filter_idx (\<lambda>_ i. i = 0 \<or> timestamp ((x # xs) ! (i - 1)) \<noteq> timestamp ((x # xs) ! i)) (x # xs) =
     x # keep_changes x xs"
  using filter_idx_keep_changes [of x xs] by (simp add: filter_idx_Cons)

lemma set_keep_changes: "set (keep_changes p xs) \<subseteq> set xs"
  by (induction xs arbitrary: p) auto

lemma keep_changes_sorted:
  "sorted (map timestamp (p # xs)) \<Longrightarrow>
     sorted_wrt (\<lambda>a b. timestamp a < timestamp b) (keep_changes p xs) \<and>
     (\<forall>y \<in> set (keep_changes p xs). timestamp p < timestamp y)"
proof (induction xs arbitrary: p)
  case Nil
  then show ?case by simp
next
  case (Cons x xs)
  from Cons.prems have px: "timestamp p \<le> timestamp x"
    and sx: "sorted (map timestamp (x # xs))"
    by simp_all
  from Cons.IH [OF sx]
  have ih: "sorted_wrt (\<lambda>a b. timestamp a < timestamp b) (keep_changes x xs)"
    "\<forall>y \<in> set (keep_changes x xs). timestamp x < timestamp y"
    by simp_all
  show ?case using px ih by auto
qed

lemma strict_distinct:
  "sorted_wrt (\<lambda>a b. timestamp a < timestamp b) h \<Longrightarrow> distinct (map timestamp h)"
  by (induction h) auto

lemma flag_only_head:
  assumes "\<forall>y \<in> set ys. \<not> fake_boundary_datapoint y"
    and "i < length (x # ys)" and "fake_boundary_datapoint ((x # ys) ! i)"
  shows "i = 0"
proof (cases i)
  case 0
  then show ?thesis .
next
  case (Suc j)
  with assms(2) have "ys ! j \<in> set ys" by simp
  with assms(1) have "\<not> fake_boundary_datapoint (ys ! j)" by blast
  with assms(3) Suc show ?thesis by simp
qed

lemma merge_history_Cons:
  assumes "sort_key timestamp (h0 @ states) = x # xs"
  shows "merge_history h0 states =
    x # keep_changes x (filter (\<lambda>y. \<not> fake_boundary_datapoint y) xs)"
  unfolding merge_history_def Let_def assms drop_boundary_Cons dedupe_Cons ..

lemma merge_history_ok: "history_ok (merge_history h0 states)"
proof (cases "sort_key timestamp (h0 @ states)")
  case Nil
  then show ?thesis by (simp add: merge_history_def history_ok_def)
next
  case (Cons x xs)
  let ?ys = "filter (\<lambda>y. \<not> fake_boundary_datapoint y) xs"
  have eq: "merge_history h0 states = x # keep_changes x ?ys"
    by (rule merge_history_Cons [OF Cons])
  have "sorted (map timestamp (x # xs))"
    using sorted_sort_key [of timestamp "h0 @ states"] by (simp only: Cons)
  then have "sorted (map timestamp (x # ?ys))"
    by (auto simp: sorted_filter)
  from keep_changes_sorted [OF this]
  have s: "sorted_wrt (\<lambda>a b. timestamp a < timestamp b) (x # keep_changes x ?ys)"
    by simp
  have f: "\<forall>y \<in> set (keep_changes x ?ys). \<not> fake_boundary_datapoint y"
    using set_keep_changes [of x ?ys] by auto
  have "\<forall>i < length (x # keep_changes x ?ys).
          fake_boundary_datapoint ((x # keep_changes x ?ys) ! i) \<longrightarrow> i = 0"
    using flag_only_head [OF f] by blast
  with s strict_distinct [OF s] show ?thesis
    unfolding eq history_ok_def by blast
qed

lemma read_property_Inherited:
  "(read_property obj k = Inherited) = (obj k = None \<and> prototype_member k)"
  by (simp add: read_property_def split: option.splits)

lemma read_property_own_or_empty:
  "(case read_property obj k of Own v \<Rightarrow> v | _ \<Rightarrow> []) =
     (case obj k of None \<Rightarrow> [] | Some v \<Rightarrow> v)"
  by (simp add: read_property_def split: option.splits)

lemma Cache_add_Inr:
  assumes "getEntityKey entity = Inr k"
    and "read_property (histories c) k \<noteq> Inherited"
    and "read_property (ranges c) k \<noteq> Inherited"
  shows "Cache_add entity states rng c =
    Inr (c\<lparr>histories := (histories c)(k \<mapsto>
              merge_history (case histories c k of None \<Rightarrow> [] | Some h \<Rightarrow> h) states),
           ranges := (ranges c)(k \<mapsto>
              compactRanges ((case ranges c k of None \<Rightarrow> [] | Some rs \<Rightarrow> rs) @ [rng]))\<rparr>)"
  using assms(2,3)
  by (simp add: Cache_add_def assms(1) merge_history_def Let_def read_property_own_or_empty)

lemma Cache_add_no_key:
  assumes "getEntityKey entity = Inl e"
  shows "Cache_add entity states rng c = Inl (e, c)"
  by (simp add: Cache_add_def assms)

lemma Cache_add_inherited_history:
  assumes "getEntityKey entity = Inr k" and "read_property (histories c) k = Inherited"
  shows "Cache_add entity states rng c = Inl (Error ''TypeError'', c)"
  by (simp add: Cache_add_def assms)

lemma Cache_add_inherited_ranges:
  assumes "getEntityKey entity = Inr k"
    and "read_property (histories c) k \<noteq> Inherited"
    and "read_property (ranges c) k = Inherited"
  shows "Cache_add entity states rng c =
    Inl (Error ''TypeError'',
         c\<lparr>histories := (histories c)(k \<mapsto>
              merge_history (case histories c k of None \<Rightarrow> [] | Some h \<Rightarrow> h) states)\<rparr>)"
  using assms(2,3)
  by (simp add: Cache_add_def assms(1) merge_history_def Let_def read_property_own_or_empty)

text \<open>Every way \<^verbatim>\<open>add\<close> can end, with the cache it leaves.\<close>

lemma Cache_add_outcomes:
  obtains (no_key) e where "getEntityKey entity = Inl e"
      and "Cache_add entity states rng c = Inl (e, c)"
  | (no_history) k where "getEntityKey entity = Inr k"
      and "read_property (histories c) k = Inherited"
      and "Cache_add entity states rng c = Inl (Error ''TypeError'', c)"
  | (no_ranges) k where "getEntityKey entity = Inr k"
      and "read_property (histories c) k \<noteq> Inherited"
      and "read_property (ranges c) k = Inherited"
      and "Cache_add entity states rng c =
        Inl (Error ''TypeError'',
             c\<lparr>histories := (histories c)(k \<mapsto>
                  merge_history (case histories c k of None \<Rightarrow> [] | Some h \<Rightarrow> h) states)\<rparr>)"
  | (added) k where "getEntityKey entity = Inr k"
      and "read_property (histories c) k \<noteq> Inherited"
      and "read_property (ranges c) k \<noteq> Inherited"
      and "Cache_add entity states rng c =
        Inr (c\<lparr>histories := (histories c)(k \<mapsto>
                  merge_history (case histories c k of None \<Rightarrow> [] | Some h \<Rightarrow> h) states),
               ranges := (ranges c)(k \<mapsto>
                  compactRanges ((case ranges c k of None \<Rightarrow> [] | Some rs \<Rightarrow> rs) @ [rng]))\<rparr>)"
proof (cases "getEntityKey entity")
  case (Inl e)
  then show ?thesis using no_key Cache_add_no_key by blast
next
  case (Inr k)
  show ?thesis
  proof (cases "read_property (histories c) k = Inherited")
    case True
    with Inr show ?thesis using no_history Cache_add_inherited_history by blast
  next
    case False
    show ?thesis
    proof (cases "read_property (ranges c) k = Inherited")
      case True
      with Inr False show ?thesis using no_ranges Cache_add_inherited_ranges by blast
    next
      case nr: False
      with Inr False show ?thesis using added Cache_add_Inr by blast
    qed
  qed
qed

lemma add_or_keep_histories_ok:
  assumes "\<forall>k h. histories c k = Some h \<longrightarrow> history_ok h"
  shows "\<forall>k h. histories (add_or_keep call c) k = Some h \<longrightarrow> history_ok h"
proof -
  obtain entity states rng where call: "call = (entity, states, rng)"
    by (cases call)
  show ?thesis
  proof (cases entity states rng c rule: Cache_add_outcomes)
    case (no_key e)
    then show ?thesis
      using assms by (simp add: add_or_keep_def call)
  next
    case (no_history k)
    then show ?thesis
      using assms by (simp add: add_or_keep_def call)
  next
    case (no_ranges k)
    then show ?thesis
      using assms by (simp add: add_or_keep_def call merge_history_ok)
  next
    case (added k)
    then show ?thesis
      using assms by (simp add: add_or_keep_def call merge_history_ok)
  qed
qed

lemma add_calls_histories_ok:
  assumes "\<forall>k h. histories c k = Some h \<longrightarrow> history_ok h"
  shows "\<forall>k h. histories (add_calls calls c) k = Some h \<longrightarrow> history_ok h"
  using assms
proof (induction calls arbitrary: c)
  case Nil
  then show ?case by (simp add: add_calls_def)
next
  case (Cons call calls)
  have "\<forall>k h. histories (add_or_keep call c) k = Some h \<longrightarrow> history_ok h"
    by (rule add_or_keep_histories_ok [OF Cons.prems])
  from Cons.IH [OF this] show ?case
    by (simp add: add_calls_def)
qed

section \<open>Numbers\<close>

lemma less_Fin [simp]: "(Fin a < Fin b) = (a < b)"
  by (auto simp: less_number_def)

lemma NegInf_least [simp]: "NegInf \<le> x" and PosInf_greatest [simp]: "x \<le> PosInf"
  by (cases x; simp)+



lemma less_imp_le_pred: "x < y \<Longrightarrow> x \<le> add_int y (- 1)"
  by (cases x; cases y) (auto simp: less_number_def)







lemma pts_empty_if_inverted: "\<not> fst r \<le> snd r \<Longrightarrow> pts r = {}"
  by (auto simp: pts_def dest: order_trans)



lemma pts_list_append [simp]: "pts_list (rs @ rs') = pts_list rs \<union> pts_list rs'"
  by (simp add: pts_list_def)


section \<open>Range arithmetic: what compaction keeps\<close>

lemma merge_sorted_fst: "fst ` set (merge_sorted rs) \<subseteq> fst ` set rs"
proof (induction rs rule: merge_sorted.induct)
  case (3 cur nxt rs)
  show ?case
  proof (cases "fst nxt \<le> snd cur")
    case True
    have "min (fst cur) (fst nxt) \<in> {fst cur, fst nxt}" by (simp add: min_def)
    with 3(1) [OF True] True show ?thesis by auto
  next
    case False
    with 3(2) [OF False] show ?thesis by auto
  qed
qed simp_all


lemma merge_sorted_separated:
  assumes "sorted (map fst rs)"
  shows "separated (merge_sorted rs)"
  using assms
proof (induction rs rule: merge_sorted.induct)
  case (3 cur nxt rs)
  from 3(3) have cn: "fst cur \<le> fst nxt" and srt: "sorted (map fst (nxt # rs))" by simp_all
  show ?case
  proof (cases "fst nxt \<le> snd cur")
    case True
    let ?m = "(min (fst cur) (fst nxt), max (snd cur) (snd nxt))"
    from 3(3) have "sorted (map fst (?m # rs))" by (auto simp: min_def)
    from 3(1) [OF True this] True show ?thesis by simp
  next
    case False
    have "snd cur < fst r" if "r \<in> set (merge_sorted (nxt # rs))" for r
    proof -
      from that merge_sorted_fst [of "nxt # rs"] have "fst r \<in> fst ` set (nxt # rs)" by blast
      with srt have "fst nxt \<le> fst r" by auto
      with False show ?thesis by simp
    qed
    with 3(2) [OF False srt] False show ?thesis by (auto simp: separated_def)
  qed
qed (simp_all add: separated_def)







lemma compactRanges_separated: "separated (compactRanges rs)"
  unfolding compactRanges_def by (rule merge_sorted_separated) simp





lemma compactRanges_single [simp]: "compactRanges [r] = [r]"
  by (simp add: compactRanges_def)

section \<open>Range arithmetic: what subtraction leaves\<close>

lemma intersects_iff:
  "intersects t c =
     (fst t \<le> snd t \<and> fst c \<le> snd c \<and> fst c \<le> snd t \<and> fst t \<le> snd c)"
  by (auto simp: intersects_def)

lemma gaps_from_ordered: "\<forall>g \<in> set (gaps_from cur t cov). fst g \<le> snd g"
  by (induction cov arbitrary: cur) (auto dest: less_imp_le_pred)

lemma gaps_from_range_ok: "list_all range_ok (gaps_from cur t cov)"
  using gaps_from_ordered [of cur t cov] by (simp add: list_all_iff range_ok_def)







lemma subtractRanges_single: "subtractRanges [t] cov = gaps_from (fst t) t cov"
  by (simp add: subtractRanges_def)

lemma subtractRanges_Nil [simp]: "subtractRanges [] cov = []"
  by (simp add: subtractRanges_def compactRanges_def)








section \<open>add with no observations\<close>

lemma keep_changes_id:
  "sorted_wrt (\<lambda>a b. timestamp a < timestamp b) (p # xs) \<Longrightarrow> keep_changes p xs = xs"
  by (induction xs arbitrary: p) auto

lemma history_ok_tail_unflagged:
  assumes "history_ok (x # xs)"
  shows "filter (\<lambda>y. \<not> fake_boundary_datapoint y) xs = xs"
proof -
  have "\<not> fake_boundary_datapoint y" if "y \<in> set xs" for y
  proof -
    from that obtain j where j: "j < length xs" "xs ! j = y"
      by (auto simp: in_set_conv_nth)
    with assms have "fake_boundary_datapoint ((x # xs) ! Suc j) \<longrightarrow> Suc j = 0"
      unfolding history_ok_def by (metis length_Cons Suc_less_eq)
    with j show ?thesis by simp
  qed
  then show ?thesis by (simp add: filter_id_conv)
qed

lemma strict_sorted_timestamps:
  "sorted_wrt (\<lambda>a b. timestamp a < timestamp b) h \<Longrightarrow> sorted (map timestamp h)"
  by (induction h) (auto simp: less_imp_le)

lemma merge_history_empty:
  assumes "history_ok h"
  shows "merge_history h [] = h"
proof (cases h)
  case Nil
  then show ?thesis by (simp add: merge_history_def)
next
  case (Cons x xs)
  from assms have strict: "sorted_wrt (\<lambda>a b. timestamp a < timestamp b) (x # xs)"
    by (simp add: history_ok_def Cons)
  have "sort_key timestamp (x # xs) = x # xs"
    using strict_sorted_timestamps [OF strict] by (rule sort_key_id_if_sorted)
  then have "sort_key timestamp (h @ []) = x # xs"
    by (simp only: Cons append_Nil2)
  from merge_history_Cons [OF this]
  have "merge_history h [] = x # keep_changes x (filter (\<lambda>y. \<not> fake_boundary_datapoint y) xs)" .
  also have "\<dots> = x # keep_changes x xs"
    using history_ok_tail_unflagged [of x xs] assms Cons by simp
  also have "\<dots> = x # xs"
    using keep_changes_id [OF strict] by simp
  finally show ?thesis by (simp add: Cons)
qed


section \<open>Ordered ranges are kept by every event\<close>



















section \<open>Coverage is kept by trimming and grows with every settled fetch\<close>

lemma not_less_NegInf [simp]: "\<not> x < NegInf"
  by (simp add: not_less)

lemma not_PosInf_less [simp]: "\<not> PosInf < x"
  by (simp add: not_less)























section \<open>Range arithmetic: the gaps are sorted and maximal\<close>





text \<open>With nothing covered, subtraction returns the compacted targets that are not empty.\<close>

lemma subtractRanges_nothing_covered:
  "subtractRanges ts [] = filter range_ok (compactRanges ts)"
proof -
  have "concat (map (\<lambda>t. gaps_from (fst t) t []) rs) = filter range_ok rs" for rs
    by (induction rs) (simp_all add: range_ok_def)
  then show ?thesis by (simp add: subtractRanges_def)
qed

section \<open>A range that was added is covered\<close>

lemma merge_sorted_contains:
  assumes "a \<in> set rs"
  shows "\<exists>m \<in> set (merge_sorted rs). fst m \<le> fst a \<and> snd a \<le> snd m"
  using assms
proof (induction rs arbitrary: a rule: merge_sorted.induct)
  case 1
  then show ?case by simp
next
  case (2 r)
  then show ?case by simp
next
  case (3 cur nxt rs)
  show ?case
  proof (cases "fst nxt \<le> snd cur")
    case True
    let ?m = "(min (fst cur) (fst nxt), max (snd cur) (snd nxt))"
    from 3(1) [OF True, of ?m]
    obtain m where m: "m \<in> set (merge_sorted (?m # rs))" "fst m \<le> fst ?m" "snd ?m \<le> snd m"
      by auto
    from 3(3) consider "a = cur" | "a = nxt" | "a \<in> set rs" by auto
    then show ?thesis
    proof cases
      case 1
      have "fst m \<le> fst cur" using m(2) by simp
      moreover have "snd cur \<le> snd m" using m(3) by simp
      ultimately show ?thesis using m(1) True 1 by auto
    next
      case 2
      have "fst m \<le> fst nxt" using m(2) by simp
      moreover have "snd nxt \<le> snd m" using m(3) by simp
      ultimately show ?thesis using m(1) True 2 by auto
    next
      case 3
      with "3.IH"(1) [OF True, of a] True show ?thesis by auto
    qed
  next
    case False
    from 3(3) consider "a = cur" | "a \<in> set (nxt # rs)" by auto
    then show ?thesis
    proof cases
      case 1
      with False show ?thesis by auto
    next
      case 2
      from "3.IH"(2) [OF False 2] False show ?thesis by auto
    qed
  qed
qed

lemma compactRanges_contains:
  assumes "a \<in> set rs"
  shows "\<exists>m \<in> set (compactRanges rs). fst m \<le> fst a \<and> snd a \<le> snd m"
  using merge_sorted_contains [of a "sort_key fst rs"] assms
  by (simp add: compactRanges_def)

lemma gaps_from_inverted:
  assumes "\<not> fst t \<le> snd t" and "fst t \<le> cur"
  shows "gaps_from cur t cov = []"
proof -
  from assms have "\<not> cur \<le> snd t" by (auto dest: order_trans)
  with assms(1) show ?thesis
    by (induction cov) (simp_all add: intersects_iff)
qed

lemma gaps_from_contained:
  assumes "separated cov" and "m \<in> set cov"
    and "fst m \<le> fst t" and "fst t \<le> snd t" and "snd t \<le> snd m" and "fst t \<le> cur"
  shows "gaps_from cur t cov = []"
  using assms(1,2)
proof (induction cov)
  case Nil
  then show ?case by simp
next
  case (Cons c cov)
  show ?case
  proof (cases "c = m")
    case True
    from assms(3,4,5) have "intersects t m"
      by (auto simp: intersects_iff intro: order_trans)
    moreover from assms(3,6) have "\<not> cur < fst m" by (auto dest: order_trans)
    moreover from assms(5) have "\<not> snd m < snd t" by simp
    ultimately show ?thesis by (simp add: True)
  next
    case False
    with Cons.prems have m: "m \<in> set cov" and sep: "separated cov" and "snd c < fst m"
      by (auto simp: separated_def)
    from this(3) assms(3) have "snd c < fst t" by (rule less_le_trans)
    then have "\<not> fst t \<le> snd c" by simp
    then have "\<not> intersects t c" by (simp add: intersects_iff)
    with Cons.IH [OF sep m] show ?thesis by simp
  qed
qed

lemma added_range_no_gaps: "subtractRanges [a] (compactRanges (rs @ [a])) = []"
proof (cases "fst a \<le> snd a")
  case True
  obtain m where m: "m \<in> set (compactRanges (rs @ [a]))" "fst m \<le> fst a" "snd a \<le> snd m"
    using compactRanges_contains [of a "rs @ [a]"] by auto
  from gaps_from_contained [OF compactRanges_separated m(1,2) True m(3) order_refl]
  show ?thesis by (simp add: subtractRanges_single)
next
  case False
  from gaps_from_inverted [OF False order_refl] show ?thesis
    by (simp add: subtractRanges_single)
qed

section \<open>Claims\<close>

text \<open>
  C1. After any sequence of \<^verbatim>\<open>add\<close> calls on a cache that starts empty, the observation
  sequence of every series is strictly sorted ascending by timestamp, holds no two
  observations with the same timestamp, and holds an observation flagged as a boundary
  point at index 0 only, if at all.
\<close>

theorem add_sequence_history_sorted_unique_boundary_first:
  assumes "histories (add_calls calls emptyCache) k = Some h"
  shows "sorted_wrt (\<lambda>a b. timestamp a < timestamp b) h \<and>
         distinct (map timestamp h) \<and>
         (\<forall>i < length h. fake_boundary_datapoint (h ! i) \<longrightarrow> i = 0)"
proof -
  have "\<forall>k h. histories emptyCache k = Some h \<longrightarrow> history_ok h"
    by (simp add: emptyCache_def)
  from add_calls_histories_ok [OF this] assms have "history_ok h"
    by blast
  then show ?thesis
    by (simp add: history_ok_def)
qed

theorem add_sequence_history_witness:
  "histories (add_calls
      [(EntityIdStateConfig ''s'', [boundary_obs 99, obs 100, obs 150, obs 200], (Fin 100, Fin 200)),
       (EntityIdStateConfig ''s'', [boundary_obs 50, obs 60, obs 100], (Fin 51, Fin 99)),
       (MalformedConfig ''{}'', [obs 1], (Fin 0, Fin 1))] emptyCache) ''s''
     = Some [boundary_obs 50, obs 60, obs 100, obs 150, obs 200] \<and>
   sorted_wrt (\<lambda>a b. timestamp a < timestamp b)
     [boundary_obs 50, obs 60, obs 100, obs 150, obs 200] \<and>
   distinct (map timestamp [boundary_obs 50, obs 60, obs 100, obs 150, obs 200])"
proof -
  have run: "histories (add_calls
      [(EntityIdStateConfig ''s'', [boundary_obs 99, obs 100, obs 150, obs 200], (Fin 100, Fin 200)),
       (EntityIdStateConfig ''s'', [boundary_obs 50, obs 60, obs 100], (Fin 51, Fin 99)),
       (MalformedConfig ''{}'', [obs 1], (Fin 0, Fin 1))] emptyCache) ''s''
     = Some [boundary_obs 50, obs 60, obs 100, obs 150, obs 200]"
    by code_simp
  from add_sequence_history_sorted_unique_boundary_first [OF run] run show ?thesis
    by blast
qed

text \<open>
  C2. For every gap \<open>[startT, endT]\<close>, the single-range fetch asks the adapter for the
  expanded window \<open>[startT - 1, min endT now]\<close>, fails when the adapter fails, and
  otherwise returns the adapter's observations with the first one (if any) flagged as a
  boundary point, together with the covered range \<open>[startT, min endT now]\<close>. For a finite
  \<open>startT\<close> the extra earlier unit \<open>startT - 1\<close> lies before the covered range.
\<close>

theorem fetchSingleRange_expanded_window:
  "fetchSingleRange hass now entity (startT, endT) sco mr =
     (case (if isEntityIdStatisticsConfig entity
            then fetchStatistics hass entity (add_int startT (- 1), min endT (Fin now))
            else fetchStates hass entity (add_int startT (- 1), min endT (Fin now)) sco mr) of
        Inl e \<Rightarrow> Inl e
      | Inr history \<Rightarrow>
          Inr \<lparr>range_fetched = (startT, min endT (Fin now)),
               history_fetched =
                 (case history of
                    [] \<Rightarrow> []
                  | x # xs \<Rightarrow> x\<lparr>fake_boundary_datapoint := True\<rparr> # xs)\<rparr>) \<and>
   (\<forall>s r. startT = Fin s \<and> fetchSingleRange hass now entity (startT, endT) sco mr = Inr r
      \<longrightarrow> add_int startT (- 1) = Fin (s - 1) \<and> Fin (s - 1) < fst (range_fetched r))"
proof -
  have less: "Fin (s - 1) < Fin s" for s
    by (simp add: less_number_def)
  show ?thesis
    by (auto simp: fetchSingleRange_def Let_def less split: sum.splits)
qed

theorem fetchSingleRange_expanded_window_witness:
  "fetchSingleRange echo_hass 150 (EntityIdStateConfig ''s'') (Fin 100, Fin 200) True False =
     Inr \<lparr>range_fetched = (Fin 100, Fin 150),
          history_fetched = [boundary_obs 99, obs 100]\<rparr> \<and>
   Fin 99 < fst (range_fetched \<lparr>range_fetched = (Fin 100, Fin 150),
          history_fetched = [boundary_obs 99, obs 100]\<rparr>)"
proof -
  have run: "fetchSingleRange echo_hass 150 (EntityIdStateConfig ''s'') (Fin 100, Fin 200) True False =
     Inr \<lparr>range_fetched = (Fin 100, Fin 150),
          history_fetched = [boundary_obs 99, obs 100]\<rparr>"
    using fetchSingleRange_expanded_window
      [of echo_hass 150 "EntityIdStateConfig ''s''" "Fin 100" "Fin 200" True False]
    by (simp add: echo_hass_def obs_def boundary_obs_def min_def)
  with fetchSingleRange_expanded_window
      [of echo_hass 150 "EntityIdStateConfig ''s''" "Fin 100" "Fin 200" True False]
  show ?thesis by simp
qed

text \<open>
  C3. On observations at the timestamps 5, 60, 100, 160, 300 and the range \<open>[50, 150]\<close>,
  \<^verbatim>\<open>removeOutsideRange\<close> keeps the observation at 300 and puts the anchor 160 behind it:
  once \<^verbatim>\<open>last\<close> is set, the filter callback returns true for every later observation.
\<close>

theorem removeOutsideRange_keeps_observations_after_anchor:
  "Cache_getHistory (EntityIdStateConfig ''s'')
     (Cache_removeOutsideRange (Fin 50, Fin 150)
       (add_calls [(EntityIdStateConfig ''s'', [obs 5, obs 60, obs 100, obs 160, obs 300],
                    (Fin 0, Fin 300))] emptyCache)) =
     Inr (Observations [obs 5, obs 60, obs 100, obs 300, obs 160])"
  by code_simp

text \<open>
  C8. \<^verbatim>\<open>getHistory\<close> derives the key first. For a descriptor of one of the three
  recognised shapes whose key does not name a member of \<^verbatim>\<open>Object.prototype\<close> it returns
  the series's current observation sequence, and the empty sequence when the cache has
  no entry for the key. For every descriptor of no recognised shape the key derivation
  throws, and so does \<^verbatim>\<open>getHistory\<close>, whatever the cache holds.
\<close>

theorem getHistory_sequence_or_malformed_error:
  "(isEntityIdAttrConfig entity \<or> isEntityIdStatisticsConfig entity \<or>
    isEntityIdStateConfig entity \<longrightarrow>
      (\<exists>key. getEntityKey entity = Inr key \<and>
         (\<not> prototype_member key \<longrightarrow>
            Cache_getHistory entity c =
              Inr (Observations (case histories c key of None \<Rightarrow> [] | Some h \<Rightarrow> h)) \<and>
            (histories c key = None \<longrightarrow> Cache_getHistory entity c = Inr (Observations []))))) \<and>
   (\<not> (isEntityIdAttrConfig entity \<or> isEntityIdStatisticsConfig entity \<or>
        isEntityIdStateConfig entity) \<longrightarrow>
      (\<exists>json. entity = MalformedConfig json \<and>
         Cache_getHistory entity c = Inl (Error (''Entity malformed:'' @ json))))"
  by (cases entity)
    (simp_all add: Cache_getHistory_def read_property_def split: option.splits)

theorem getHistory_sequence_or_malformed_error_witness:
  "Cache_getHistory (EntityIdAttrConfig ''sensor.t'' ''unit'') emptyCache = Inr (Observations []) \<and>
   Cache_getHistory (EntityIdStateConfig ''s'')
     (add_calls [(EntityIdStateConfig ''s'', [obs 5, obs 60], (Fin 0, Fin 300))] emptyCache) =
     Inr (Observations [obs 5, obs 60]) \<and>
   Cache_getHistory (MalformedConfig ''[]'')
     (add_calls [(EntityIdStateConfig ''s'', [obs 5, obs 60], (Fin 0, Fin 300))] emptyCache) =
     Inl (Error ''Entity malformed:[]'')"
proof -
  let ?c = "add_calls [(EntityIdStateConfig ''s'', [obs 5, obs 60], (Fin 0, Fin 300))] emptyCache"
  have h: "histories ?c ''s'' = Some [obs 5, obs 60]"
    by code_simp
  have p: "\<not> prototype_member ''s''" "\<not> prototype_member ''sensor.t::unit''"
    by (simp_all add: prototype_member_def object_prototype_names_def)
  from getHistory_sequence_or_malformed_error
    [of "EntityIdAttrConfig ''sensor.t'' ''unit''" emptyCache] p(2)
  have "Cache_getHistory (EntityIdAttrConfig ''sensor.t'' ''unit'') emptyCache =
      Inr (Observations [])"
    by (simp add: emptyCache_def)
  moreover from getHistory_sequence_or_malformed_error [of "EntityIdStateConfig ''s''" ?c] p(1) h
  have "Cache_getHistory (EntityIdStateConfig ''s'') ?c = Inr (Observations [obs 5, obs 60])"
    by simp
  moreover from getHistory_sequence_or_malformed_error [of "MalformedConfig ''[]''" ?c]
  have "Cache_getHistory (MalformedConfig ''[]'') ?c =
      Inl (Error ''Entity malformed:[]'')"
    by simp
  ultimately show ?thesis by simp
qed

theorem getHistory_fails_or_returns_inherited_member:
  "Cache_getHistory (MalformedConfig ''{}'') emptyCache = Inl (Error ''Entity malformed:{}'') \<and>
   Cache_getHistory (EntityIdStateConfig ''constructor'') emptyCache =
     Inr (PrototypeMember ''constructor'')"
  by (simp add: Cache_getHistory_def read_property_def prototype_member_def
      object_prototype_names_def emptyCache_def)

text \<open>
  C10. For a series whose key does not name a member of \<^verbatim>\<open>Object.prototype\<close> and whose
  observation sequence is strictly sorted with a boundary flag at index 0 only (as
  \<^verbatim>\<open>add\<close> leaves it), and for every range, \<^verbatim>\<open>add\<close> with an empty observation list
  returns, leaves the observation sequence unchanged and merges the range into the
  covered ranges. When a gap ends no later than the time of its fetch and the fetch
  returns no observation, \<^verbatim>\<open>update\<close> records the gap through exactly that \<^verbatim>\<open>add\<close>, and
  the gap computation of a later update over the same window finds nothing to fetch.
\<close>

theorem add_empty_keeps_history_and_covers_range:
  assumes key: "getEntityKey entity = Inr k"
    and own: "\<not> prototype_member k"
    and hist: "history_ok (case histories c k of None \<Rightarrow> [] | Some h \<Rightarrow> h)"
  shows "\<exists>c'. Cache_add entity [] aRange c = Inr c' \<and>
           Cache_getHistory entity c' = Cache_getHistory entity c \<and>
           ranges c' k = Some (compactRanges
             ((case ranges c k of None \<Rightarrow> [] | Some rs \<Rightarrow> rs) @ [aRange])) \<and>
           (snd aRange \<le> Fin issued \<longrightarrow>
              settle_task now u (Awaiting entity aRange issued rest) (Inr []) c =
                ((case rest of [] \<Rightarrow> Fulfilled | g # rest' \<Rightarrow> Awaiting entity g now rest'),
                 c')) \<and>
           subtractRanges [aRange] (case ranges c' k of None \<Rightarrow> [] | Some rs \<Rightarrow> rs) = []"
proof -
  let ?rs = "case ranges c k of None \<Rightarrow> [] | Some rs \<Rightarrow> rs"
  let ?h = "case histories c k of None \<Rightarrow> [] | Some h \<Rightarrow> h"
  let ?c' = "c\<lparr>histories := (histories c)(k \<mapsto> merge_history ?h []),
               ranges := (ranges c)(k \<mapsto> compactRanges (?rs @ [aRange]))\<rparr>"
  from own have "read_property (histories c) k \<noteq> Inherited"
    and "read_property (ranges c) k \<noteq> Inherited"
    by (simp_all add: read_property_Inherited)
  then have add: "Cache_add entity [] aRange c = Inr ?c'"
    by (rule Cache_add_Inr [OF key])
  have same: "Cache_getHistory entity ?c' = Cache_getHistory entity c"
    using own
    by (simp add: Cache_getHistory_def key merge_history_empty [OF hist] read_property_def
        split: option.splits)
  have settle: "settle_task now u (Awaiting entity aRange issued rest) (Inr []) c =
      ((case rest of [] \<Rightarrow> Fulfilled | g # rest' \<Rightarrow> Awaiting entity g now rest'), ?c')"
    if past: "snd aRange \<le> Fin issued"
  proof -
    have clamp: "min (snd aRange) (Fin issued) = snd aRange"
      using past by (simp add: min_def)
    have fetched: "fetchSingleRange (answering (Inr [])) issued entity aRange
        (u_significant_changes_only u) (u_minimal_response u) =
        Inr \<lparr>range_fetched = aRange, history_fetched = []\<rparr>"
      by (simp add: fetchSingleRange_def answering_def Let_def clamp)
    show ?thesis
      by (simp add: fetched add split: list.splits)
  qed
  have none: "subtractRanges [aRange] (case ranges ?c' k of None \<Rightarrow> [] | Some rs \<Rightarrow> rs) = []"
    by (simp add: added_range_no_gaps)
  from add same settle none show ?thesis
    by (intro exI [of _ ?c']) simp
qed

theorem add_empty_keeps_history_witness:
  "\<exists>c'. Cache_add sensor [] (Fin 100, Fin 200)
          (add_calls [(sensor, [obs 5, obs 60], (Fin 0, Fin 60))] emptyCache) = Inr c' \<and>
        Cache_getHistory sensor c' = Inr (Observations [obs 5, obs 60]) \<and>
        ranges c' ''sensor.t'' = Some [(Fin 0, Fin 60), (Fin 100, Fin 200)] \<and>
        settle_task 310 update_100_200 (Awaiting sensor (Fin 100, Fin 200) 300 []) (Inr [])
          (add_calls [(sensor, [obs 5, obs 60], (Fin 0, Fin 60))] emptyCache) = (Fulfilled, c') \<and>
        subtractRanges [(Fin 100, Fin 200)] [(Fin 0, Fin 60), (Fin 100, Fin 200)] = []"
proof -
  let ?c = "add_calls [(sensor, [obs 5, obs 60], (Fin 0, Fin 60))] emptyCache"
  have h: "histories ?c ''sensor.t'' = Some [obs 5, obs 60]"
    by code_simp
  have r: "ranges ?c ''sensor.t'' = Some [(Fin 0, Fin 60)]"
    by code_simp
  have 1: "getEntityKey sensor = Inr ''sensor.t''" by (simp add: sensor_def)
  have 2: "\<not> prototype_member ''sensor.t''"
    by (simp add: prototype_member_def object_prototype_names_def)
  have 3: "history_ok (case histories ?c ''sensor.t'' of None \<Rightarrow> [] | Some h \<Rightarrow> h)"
    unfolding h by (simp add: history_ok_def obs_def nth_Cons split: nat.splits)
  have 4: "snd (Fin 100, Fin 200) \<le> Fin 300" by simp
  have g: "Cache_getHistory sensor ?c = Inr (Observations [obs 5, obs 60])"
    by (simp add: Cache_getHistory_def 1 h read_property_def)
  have k: "compactRanges [(Fin 0, Fin 60), (Fin 100, Fin 200)] =
      [(Fin 0, Fin 60), (Fin 100, Fin 200)]"
    by (simp add: compactRanges_def)
  from add_empty_keeps_history_and_covers_range
    [OF 1 2 3, of "(Fin 100, Fin 200)" 300 310 update_100_200 "[]"] 4
  obtain c' where a: "Cache_add sensor [] (Fin 100, Fin 200) ?c = Inr c'"
    and b: "Cache_getHistory sensor c' = Cache_getHistory sensor ?c"
    and d: "ranges c' ''sensor.t'' = Some (compactRanges
             ((case ranges ?c ''sensor.t'' of None \<Rightarrow> [] | Some rs \<Rightarrow> rs) @ [(Fin 100, Fin 200)]))"
    and st: "settle_task 310 update_100_200 (Awaiting sensor (Fin 100, Fin 200) 300 []) (Inr [])
          ?c = (Fulfilled, c')"
    and e: "subtractRanges [(Fin 100, Fin 200)]
             (case ranges c' ''sensor.t'' of None \<Rightarrow> [] | Some rs \<Rightarrow> rs) = []"
    by auto
  from d have d': "ranges c' ''sensor.t'' = Some [(Fin 0, Fin 60), (Fin 100, Fin 200)]"
    by (simp add: r k)
  from e have e': "subtractRanges [(Fin 100, Fin 200)] [(Fin 0, Fin 60), (Fin 100, Fin 200)] = []"
    by (simp add: d')
  from a b d' st e' show ?thesis
    by (intro exI [of _ c']) (simp add: g)
qed

theorem add_empty_throws_or_reorders_and_future_gap_is_refetched:
  "Cache_add (EntityIdStateConfig ''constructor'') [] (Fin 100, Fin 200) emptyCache =
     Inl (Error ''TypeError'', emptyCache) \<and>
   Cache_getHistory sensor trimmed_cache =
     Inr (Observations [obs 5, obs 60, obs 100, obs 300, obs 160]) \<and>
   (case Cache_add sensor [] (Fin 50, Fin 150) trimmed_cache of
      Inl (e, c') \<Rightarrow> Inl e | Inr c' \<Rightarrow> Cache_getHistory sensor c') =
     Inr (Observations [obs 5, obs 60, obs 100, obs 160, obs 300]) \<and>
   w_fetches (run newWorld [Update 150 update_100_200, Settle 0 0 160 (Inr []),
                            Update 170 update_100_200]) =
     [(sensor, (Fin 100, Fin 200), 150), (sensor, (Fin 151, Fin 200), 170)]"
proof (intro conjI)
  show "Cache_add (EntityIdStateConfig ''constructor'') [] (Fin 100, Fin 200) emptyCache =
     Inl (Error ''TypeError'', emptyCache)"
    by (simp add: Cache_add_def read_property_def prototype_member_def
        object_prototype_names_def emptyCache_def)
  show "Cache_getHistory sensor trimmed_cache =
      Inr (Observations [obs 5, obs 60, obs 100, obs 300, obs 160])"
    by code_simp
  show "(case Cache_add sensor [] (Fin 50, Fin 150) trimmed_cache of
      Inl (e, c') \<Rightarrow> Inl e | Inr c' \<Rightarrow> Cache_getHistory sensor c') =
     Inr (Observations [obs 5, obs 60, obs 100, obs 160, obs 300])"
    by code_simp
  show "w_fetches (run newWorld [Update 150 update_100_200, Settle 0 0 160 (Inr []),
                            Update 170 update_100_200]) =
     [(sensor, (Fin 100, Fin 200), 150), (sensor, (Fin 151, Fin 200), 170)]"
    by code_simp
qed

text \<open>
  C4. An update over two series, each with one gap to fetch; the fetch of the first
  series fails at time 310 while the fetch of the second is still in flight.
  \<^verbatim>\<open>Promise.all\<close> rejects at once, so the promise returned by \<^verbatim>\<open>update\<close> is settled
  (rejected) while the second series's gap-fetch has not settled. That fetch goes on:
  when it settles at time 320 its observations are merged.
\<close>

theorem update_settles_before_sibling_fetch:
  "op_settled (w_operations (run newWorld
      [Update 300 update_both, Settle 0 0 310 (Inl (Error ''timeout''))]) ! 0) =
     RejectedWith (Error ''timeout'') \<and>
   op_tasks (w_operations (run newWorld
      [Update 300 update_both, Settle 0 0 310 (Inl (Error ''timeout''))]) ! 0) =
     [Rejected (Error ''timeout''), Awaiting other_sensor (Fin 100, Fin 200) 300 []] \<and>
   Cache_getHistory other_sensor (w_cache (run newWorld
      [Update 300 update_both, Settle 0 0 310 (Inl (Error ''timeout'')),
       Settle 0 1 320 (Inr [obs 99, obs 120])])) =
     Inr (Observations [boundary_obs 99, obs 120])"
  by code_simp

text \<open>
  C5. A second update is enqueued behind the first. When one fetch of the first fails,
  the promise \<^verbatim>\<open>busy\<close> is rejected and the body of the second starts while a fetch of
  the first is still in flight: its gap computation does not see what that fetch will
  add, it fetches the same gap again, and the \<^verbatim>\<open>add\<close> of the first call lands while
  the second call is running.
\<close>

theorem second_update_overlaps_failed_first:
  "map op_started (w_operations (run newWorld
      [Update 300 update_both, Update 301 update_other,
       Settle 0 0 310 (Inl (Error ''timeout''))])) = [True, True] \<and>
   map op_tasks (w_operations (run newWorld
      [Update 300 update_both, Update 301 update_other,
       Settle 0 0 310 (Inl (Error ''timeout''))])) =
     [[Rejected (Error ''timeout''), Awaiting other_sensor (Fin 100, Fin 200) 300 []],
      [Awaiting other_sensor (Fin 100, Fin 200) 310 []]] \<and>
   ranges (w_cache (run newWorld
      [Update 300 update_both, Update 301 update_other,
       Settle 0 0 310 (Inl (Error ''timeout''))])) ''sensor.u'' = Some [] \<and>
   ranges (w_cache (run newWorld
      [Update 300 update_both, Update 301 update_other,
       Settle 0 0 310 (Inl (Error ''timeout'')),
       Settle 0 1 320 (Inr [obs 99, obs 120])])) ''sensor.u'' = Some [(Fin 100, Fin 200)] \<and>
   map op_settled (w_operations (run newWorld
      [Update 300 update_both, Update 301 update_other,
       Settle 0 0 310 (Inl (Error ''timeout'')),
       Settle 0 1 320 (Inr [obs 99, obs 120])])) =
     [RejectedWith (Error ''timeout''), Pending]"
  by code_simp









end
